theory Spec2Isabelle
  imports Main "HOL-Library.Word"
begin

section \<open>Data model (types.go)\<close>

text \<open>
  Go's \<open>int\<close> is a 64-bit two's complement integer on the usual targets: \<open>+\<close>, \<open>-\<close> and
  unary minus wrap around, comparisons are signed.  Coordinates and distances are
  caller-supplied and computed with, so they are 64-bit words, read by \<open>sint\<close>.

  Identifiers (taxi IDs, ride IDs) come only from the counters \<open>nextID\<close> and
  \<open>nextRideID\<close>, which start at 1 and grow by one per created object; they are
  never computed with otherwise.  A counter wraps around only after \<open>2^63 - 1\<close>
  objects: the taxis all stay in the map, and the scheduler creates one ride per
  three-second tick, so no execution gets there.  Identifiers are therefore
  modelled as \<open>int\<close>.  Client IDs are only stored and printed, and are \<open>int\<close> as
  well.
\<close>

type_synonym int64 = "64 word"

record Location =
  X :: int64
  Y :: int64

datatype RideStatus = CREATED | ASSIGNED | IN_PROGRESS | FINISHED

record Taxi =
  ID :: int
  Location :: Location
  IsAvailable :: bool

text \<open>
  The parameter \<open>id\<close> of the store's methods is \<open>tid\<close> here.
  The fields of \<open>Ride\<close> and \<open>RideRequest\<close> that share a name with a field of another
  struct carry a prefix: \<open>RideID\<close> is \<open>Ride.ID\<close>, \<open>ReqClientID\<close> is
  \<open>RideRequest.ClientID\<close>, and so on.  The mutex \<open>mu\<close> has no counterpart: every
  operation below is one atomic step.
\<close>

record Ride =
  RideID :: int
  ClientID :: int
  TaxiID :: int
  StartLocation :: Location
  EndLocation :: Location
  Status :: RideStatus

record RideRequest =
  ReqClientID :: int
  ReqStartLocation :: Location
  ReqEndLocation :: Location

section \<open>Distance (location.go)\<close>

definition CalculateDistance :: "Location \<Rightarrow> Location \<Rightarrow> int64" where
  "CalculateDistance frm to =
     (let xDist = X frm - X to;
          yDist = Y frm - Y to;
          xDist = (if xDist <s 0 then - xDist else xDist);
          yDist = (if yDist <s 0 then - yDist else yDist)
      in xDist + yDist)"

text \<open>
  The Manhattan metric of the specification, on the mathematical integers that the
  coordinates denote.  \<open>CalculateDistance\<close> is compared with it.
\<close>

definition manhattan :: "Location \<Rightarrow> Location \<Rightarrow> int" where
  "manhattan a b = \<bar>sint (X a) - sint (X b)\<bar> + \<bar>sint (Y a) - sint (Y b)\<bar>"

section \<open>The taxi store (store.go)\<close>

text \<open>
  \<open>taxis\<close> is a \<open>map[int]*Taxi\<close>: its values are pointers.  A pointer is the index
  of the object in \<open>objs\<close>, the list of the \<open>Taxi\<close> objects allocated so far (only
  \<open>Add\<close> allocates one, at the end of the list).  Whoever holds a \<open>*Taxi\<close> reads the
  object in the store's current \<open>objs\<close>.  Go has no dangling pointers: a pointer
  that the map holds is always allocated, which is part of \<open>store_wf\<close> below.
\<close>

type_synonym addr = nat

record TaxiStore =
  taxis :: "int \<rightharpoonup> addr"
  nextID :: int
  objs :: "Taxi list"

definition NewTaxiStore :: TaxiStore where
  "NewTaxiStore = \<lparr>taxis = Map.empty, nextID = 1, objs = []\<rparr>"

definition Add :: "TaxiStore \<Rightarrow> Location \<Rightarrow> int \<times> TaxiStore" where
  "Add ts location =
     (let tid = nextID ts;
          ts = ts\<lparr>nextID := tid + 1\<rparr>;
          p = length (objs ts);
          ts = ts\<lparr>objs := objs ts @ [\<lparr>ID = tid, Location = location, IsAvailable = True\<rparr>]\<rparr>
      in (tid, ts\<lparr>taxis := (taxis ts)(tid \<mapsto> p)\<rparr>))"

definition Get :: "TaxiStore \<Rightarrow> int \<Rightarrow> addr option" where
  "Get ts tid = taxis ts tid"

text \<open>
  \<open>range ts.taxis\<close> visits the keys of the map in an order Go leaves unspecified.
  The order is the argument \<open>ord\<close>; \<open>valid_order\<close> says that it lists every key
  once.
\<close>

definition valid_order :: "TaxiStore \<Rightarrow> int list \<Rightarrow> bool" where
  "valid_order ts ord \<longleftrightarrow> distinct ord \<and> set ord = dom (taxis ts)"

fun GetAllAvailable_loop :: "TaxiStore \<Rightarrow> int list \<Rightarrow> addr list \<Rightarrow> addr list" where
  "GetAllAvailable_loop ts [] available = available"
| "GetAllAvailable_loop ts (k # ks) available =
     (case taxis ts k of
        None \<Rightarrow> GetAllAvailable_loop ts ks available
      | Some taxi \<Rightarrow>
          if IsAvailable (objs ts ! taxi)
          then GetAllAvailable_loop ts ks (available @ [taxi])
          else GetAllAvailable_loop ts ks available)"

definition GetAllAvailable :: "TaxiStore \<Rightarrow> int list \<Rightarrow> addr list" where
  "GetAllAvailable ts ord = GetAllAvailable_loop ts ord []"

definition SetAvailability :: "TaxiStore \<Rightarrow> int \<Rightarrow> bool \<Rightarrow> bool \<times> TaxiStore" where
  "SetAvailability ts tid available =
     (case taxis ts tid of
        None \<Rightarrow> (False, ts)
      | Some taxi \<Rightarrow>
          (True, ts\<lparr>objs := (objs ts)[taxi := (objs ts ! taxi)\<lparr>IsAvailable := available\<rparr>]\<rparr>))"

definition UpdateLocation :: "TaxiStore \<Rightarrow> int \<Rightarrow> Location \<Rightarrow> bool \<times> TaxiStore" where
  "UpdateLocation ts tid location =
     (case taxis ts tid of
        None \<Rightarrow> (False, ts)
      | Some taxi \<Rightarrow>
          (True, ts\<lparr>objs := (objs ts)[taxi := (objs ts ! taxi)\<lparr>Location := location\<rparr>]\<rparr>))"

text \<open>
  What \<open>Add\<close> maintains: every allocated object is the value of the map at its own
  ID, every pointer in the map is allocated, and every key is below the counter.
\<close>

definition store_wf :: "TaxiStore \<Rightarrow> bool" where
  "store_wf ts \<longleftrightarrow>
     (\<forall>a < length (objs ts). taxis ts (ID (objs ts ! a)) = Some a) \<and>
     (\<forall>k a. taxis ts k = Some a \<longrightarrow> a < length (objs ts) \<and> ID (objs ts ! a) = k \<and> k < nextID ts)"

section \<open>Assignment (assigner.go)\<close>

text \<open>The \<open>for\<close> loop of \<open>AssignClosestTaxi\<close>; \<open>-1\<close> marks "no taxi found yet".\<close>

fun closest_loop ::
  "TaxiStore \<Rightarrow> Ride \<Rightarrow> addr list \<Rightarrow> addr option \<times> int64 \<Rightarrow> addr option \<times> int64" where
  "closest_loop ts ride [] (closestTaxi, closestDistance) = (closestTaxi, closestDistance)"
| "closest_loop ts ride (taxi # rest) (closestTaxi, closestDistance) =
     (let distance = CalculateDistance (Location (objs ts ! taxi)) (StartLocation ride)
      in if closestDistance = - 1 \<or> distance <s closestDistance
         then closest_loop ts ride rest (Some taxi, distance)
         else closest_loop ts ride rest (closestTaxi, closestDistance))"

text \<open>
  The ride is passed by pointer and mutated in the source; here the updated ride is
  returned, with the pointer to the chosen taxi (\<open>None\<close> is \<open>nil\<close>) and the store.
\<close>

definition AssignClosestTaxi ::
  "TaxiStore \<Rightarrow> int list \<Rightarrow> Ride \<Rightarrow> addr option \<times> TaxiStore \<times> Ride" where
  "AssignClosestTaxi ts ord ride =
     (let availableTaxis = GetAllAvailable ts ord
      in if length availableTaxis = 0 then (None, ts, ride)
         else
           (case fst (closest_loop ts ride availableTaxis (None, - 1)) of
              None \<Rightarrow> (None, ts, ride)
            | Some closestTaxi \<Rightarrow>
                (case SetAvailability ts (ID (objs ts ! closestTaxi)) False of
                   (False, ts') \<Rightarrow> (None, ts', ride)
                 | (True, ts') \<Rightarrow>
                     (Some closestTaxi, ts',
                      ride\<lparr>TaxiID := ID (objs ts' ! closestTaxi), Status := ASSIGNED\<rparr>))))"

definition CalculateRideDuration :: "TaxiStore \<Rightarrow> addr \<Rightarrow> Ride \<Rightarrow> int64" where
  "CalculateRideDuration ts taxi ride =
     (let pickupDistance = CalculateDistance (Location (objs ts ! taxi)) (StartLocation ride);
          rideDistance = CalculateDistance (StartLocation ride) (EndLocation ride)
      in pickupDistance + rideDistance)"

section \<open>Server and scheduler (server.go, scheduler.go)\<close>

text \<open>
  The channel \<open>rideRequests\<close> of capacity 150: \<open>buf\<close> is its buffer, oldest request
  first; \<open>sendq\<close> holds the requests of the senders parked on the full channel, in
  the order they arrived; \<open>closed\<close> records \<open>close\<close>.
\<close>

record Chan =
  buf :: "RideRequest list"
  sendq :: "RideRequest list"
  closed :: bool

definition chan_cap :: nat where
  "chan_cap = 150"

text \<open>
  One state for the whole process: the fields of \<open>Server\<close> (\<open>taxiStore\<close>,
  \<open>rideRequests\<close>, \<open>shutdown\<close>), the counter of \<open>RideScheduler\<close> (\<open>nextRideID\<close>), the
  \<open>Ride\<close> objects allocated by \<open>processRequest\<close> (\<open>rideObjs\<close>, a \<open>*Ride\<close> is an
  index; objects are never collected), and the goroutines spawned by \<open>startRide\<close>
  that have not called \<open>endRide\<close> yet, each with its arguments \<open>(r, t, d)\<close>.
  Logging, the ticker and the sleep of a goroutine are left out: a step happens
  whenever it is scheduled.
\<close>

record System =
  taxiStore :: TaxiStore
  rideRequests :: Chan
  shutdown :: bool
  nextRideID :: int
  rideObjs :: "Ride list"
  goroutines :: "(addr \<times> addr \<times> int64) list"

definition NewServer :: System where
  "NewServer =
     \<lparr>taxiStore = NewTaxiStore,
      rideRequests = \<lparr>buf = [], sendq = [], closed = False\<rparr>,
      shutdown = False,
      nextRideID = 1,
      rideObjs = [],
      goroutines = []\<rparr>"

text \<open>
  How a call ends: it returns a value, it parks the calling goroutine (on a send to
  the full channel), or it panics.  Each carries the state the call leaves behind.
\<close>

datatype panic = SendOnClosedChannel | CloseOfClosedChannel

datatype 'a outcome = Returns 'a System | Blocks System | Panics panic System

text \<open>\<open>RegisterTaxi\<close> is \<open>TaxiManager.CreateTaxi\<close>, which is \<open>TaxiStore.Add\<close>.\<close>

definition RegisterTaxi :: "System \<Rightarrow> Location \<Rightarrow> int \<times> System" where
  "RegisterTaxi s location =
     (case Add (taxiStore s) location of (tid, ts) \<Rightarrow> (tid, s\<lparr>taxiStore := ts\<rparr>))"

definition RequestRide :: "System \<Rightarrow> int \<Rightarrow> Location \<Rightarrow> Location \<Rightarrow> bool outcome" where
  "RequestRide s clientID startLocation endLocation =
     (if shutdown s then Returns False s
      else
        let request = \<lparr>ReqClientID = clientID, ReqStartLocation = startLocation,
                        ReqEndLocation = endLocation\<rparr>;
            c = rideRequests s
        in if closed c then Panics SendOnClosedChannel s
           else if length (buf c) < chan_cap
           then Returns True (s\<lparr>rideRequests := c\<lparr>buf := buf c @ [request]\<rparr>\<rparr>)
           else Blocks (s\<lparr>rideRequests := c\<lparr>sendq := sendq c @ [request]\<rparr>\<rparr>))"

text \<open>
  \<open>close\<close> panics on a closed channel; on an open one it wakes the parked senders,
  each of which panics in its send.
\<close>

definition Shutdown :: "System \<Rightarrow> unit outcome" where
  "Shutdown s =
     (let s = s\<lparr>shutdown := True\<rparr>;
          c = rideRequests s
      in if closed c then Panics CloseOfClosedChannel s
         else if sendq c \<noteq> [] then Panics SendOnClosedChannel (s\<lparr>rideRequests := c\<lparr>closed := True\<rparr>\<rparr>)
         else Returns () (s\<lparr>rideRequests := c\<lparr>closed := True\<rparr>\<rparr>))"

text \<open>
  A receive takes the oldest buffered request; if a sender is parked, its request
  enters the buffer in the same step and its send completes.  \<open>None\<close>: nothing is
  buffered (the receiver waits, or the loop of \<open>Start\<close> ends if the channel is closed).
\<close>

definition recv :: "Chan \<Rightarrow> (RideRequest \<times> Chan) option" where
  "recv c =
     (case buf c of
        [] \<Rightarrow> None
      | request # q \<Rightarrow>
          (case sendq c of
             [] \<Rightarrow> Some (request, c\<lparr>buf := q\<rparr>)
           | w # ws \<Rightarrow> Some (request, c\<lparr>buf := q @ [w], sendq := ws\<rparr>)))"

definition startRide :: "System \<Rightarrow> addr \<Rightarrow> addr \<Rightarrow> int64 \<Rightarrow> System" where
  "startRide s r t d =
     (let s = s\<lparr>rideObjs := (rideObjs s)[r := (rideObjs s ! r)\<lparr>Status := IN_PROGRESS\<rparr>]\<rparr>
      in s\<lparr>goroutines := goroutines s @ [(r, t, d)]\<rparr>)"

text \<open>
  The new \<open>Ride\<close> is reachable only through the local variable \<open>ride\<close> until
  \<open>startRide\<close> hands it to a goroutine, so it enters \<open>rideObjs\<close> once
  \<open>AssignClosestTaxi\<close> has returned, at the index \<open>r\<close>.
\<close>

definition processRequest :: "System \<Rightarrow> int list \<Rightarrow> RideRequest \<Rightarrow> System" where
  "processRequest s ord request =
     (let rideID = nextRideID s;
          s = s\<lparr>nextRideID := rideID + 1\<rparr>;
          ride = \<lparr>RideID = rideID, ClientID = ReqClientID request, TaxiID = 0,
                  StartLocation = ReqStartLocation request,
                  EndLocation = ReqEndLocation request, Status = CREATED\<rparr>
      in case AssignClosestTaxi (taxiStore s) ord ride of
           (taxi, ts, ride) \<Rightarrow>
             (let r = length (rideObjs s);
                  s = s\<lparr>taxiStore := ts, rideObjs := rideObjs s @ [ride]\<rparr>
              in case taxi of
                   None \<Rightarrow> s
                 | Some t \<Rightarrow>
                     (let duration = CalculateRideDuration (taxiStore s) t ride
                      in startRide s r t duration)))"

definition endRide :: "System \<Rightarrow> addr \<Rightarrow> addr \<Rightarrow> System" where
  "endRide s r t =
     (let s = s\<lparr>rideObjs := (rideObjs s)[r := (rideObjs s ! r)\<lparr>Status := FINISHED\<rparr>]\<rparr>;
          ts = taxiStore s;
          ts = snd (UpdateLocation ts (ID (objs ts ! t)) (EndLocation (rideObjs s ! r)));
          ts = snd (SetAvailability ts (ID (objs ts ! t)) True)
      in s\<lparr>taxiStore := ts\<rparr>)"

section \<open>Runs of the system\<close>

text \<open>
  The atomic steps: a registration, a ride request (returning or parking), one
  iteration of the loop of \<open>Start\<close> (a receive and \<open>processRequest\<close>, with the order
  in which the map is iterated), the body of one spawned goroutine (\<open>endRide\<close>),
  and \<open>Shutdown\<close>.  A step that panics ends the process: it has no successor.
\<close>

datatype event =
    EvRegister Location
  | EvRequest int Location Location
  | EvProcess "int list"
  | EvComplete nat
  | EvShutdown

definition run_goroutine :: "System \<Rightarrow> nat \<Rightarrow> System" where
  "run_goroutine s i =
     (case goroutines s ! i of
        (r, t, d) \<Rightarrow> endRide (s\<lparr>goroutines := take i (goroutines s) @ drop (Suc i) (goroutines s)\<rparr>) r t)"

fun step :: "System \<Rightarrow> event \<Rightarrow> System option" where
  "step s (EvRegister location) = Some (snd (RegisterTaxi s location))"
| "step s (EvRequest clientID a b) =
     (case RequestRide s clientID a b of
        Returns ok s' \<Rightarrow> Some s'
      | Blocks s' \<Rightarrow> Some s'
      | Panics p s' \<Rightarrow> None)"
| "step s (EvProcess ord) =
     (if valid_order (taxiStore s) ord
      then (case recv (rideRequests s) of
              None \<Rightarrow> None
            | Some (request, c) \<Rightarrow> Some (processRequest (s\<lparr>rideRequests := c\<rparr>) ord request))
      else None)"
| "step s (EvComplete i) =
     (if i < length (goroutines s) then Some (run_goroutine s i) else None)"
| "step s EvShutdown =
     (case Shutdown s of
        Returns u s' \<Rightarrow> Some s'
      | Blocks s' \<Rightarrow> None
      | Panics p s' \<Rightarrow> None)"

fun run :: "System \<Rightarrow> event list \<Rightarrow> System option" where
  "run s [] = Some s"
| "run s (e # es) = (case step s e of None \<Rightarrow> None | Some s' \<Rightarrow> run s' es)"

text \<open>A ride holds a vehicle while it is assigned or in progress.\<close>

definition active :: "Ride \<Rightarrow> bool" where
  "active ride \<longleftrightarrow> Status ride = ASSIGNED \<or> Status ride = IN_PROGRESS"


section \<open>Invariants of a run\<close>

text \<open>
  Ride \<open>r\<close> holds vehicle \<open>k\<close>: it is allocated, assigned or in progress, and its
  \<open>TaxiID\<close> is \<open>k\<close>.
\<close>

definition holds :: "System \<Rightarrow> addr \<Rightarrow> int \<Rightarrow> bool" where
  "holds s r k \<longleftrightarrow> r < length (rideObjs s) \<and> active (rideObjs s ! r) \<and> TaxiID (rideObjs s ! r) = k"

definition inv_avail :: "System \<Rightarrow> bool" where
  "inv_avail s \<longleftrightarrow>
     (\<forall>k p. taxis (taxiStore s) k = Some p \<longrightarrow>
        (\<not> IsAvailable (objs (taxiStore s) ! p) \<longleftrightarrow> (\<exists>r. holds s r k)))"

definition inv_excl :: "System \<Rightarrow> bool" where
  "inv_excl s \<longleftrightarrow> (\<forall>r r' k. holds s r k \<longrightarrow> holds s r' k \<longrightarrow> r = r')"

definition inv_dom :: "System \<Rightarrow> bool" where
  "inv_dom s \<longleftrightarrow> (\<forall>r k. holds s r k \<longrightarrow> taxis (taxiStore s) k \<noteq> None)"

definition inv_go :: "System \<Rightarrow> bool" where
  "inv_go s \<longleftrightarrow>
     distinct (map fst (goroutines s)) \<and>
     (\<forall>(r, t, d) \<in> set (goroutines s).
        t < length (objs (taxiStore s)) \<and>
        holds s r (ID (objs (taxiStore s) ! t)) \<and>
        Status (rideObjs s ! r) = IN_PROGRESS \<and>
        d = CalculateRideDuration (taxiStore s) t (rideObjs s ! r))"

definition sys_inv :: "System \<Rightarrow> bool" where
  "sys_inv s \<longleftrightarrow> store_wf (taxiStore s) \<and> inv_avail s \<and> inv_excl s \<and> inv_dom s \<and> inv_go s"

text \<open>The \<open>Ride\<close> object that \<open>processRequest\<close> creates for a request.\<close>

definition new_ride :: "System \<Rightarrow> RideRequest \<Rightarrow> Ride" where
  "new_ride s request =
     \<lparr>RideID = nextRideID s, ClientID = ReqClientID request, TaxiID = 0,
      StartLocation = ReqStartLocation request, EndLocation = ReqEndLocation request,
      Status = CREATED\<rparr>"

section \<open>Concrete states\<close>

text \<open>One taxi at \<open>(0,0)\<close>; taxis at \<open>(0,0)\<close> and \<open>(10,10)\<close>.\<close>

definition store_one :: TaxiStore where
  "store_one = snd (Add NewTaxiStore \<lparr>X = 0, Y = 0\<rparr>)"

definition store_two :: TaxiStore where
  "store_two = snd (Add store_one \<lparr>X = 10, Y = 10\<rparr>)"

text \<open>
  Taxis at \<open>(1,0)\<close>, at \<open>(-2^63, 2^63 - 1)\<close> and at \<open>(5,5)\<close>: from the second one
  to \<open>(0,0)\<close>, \<open>CalculateDistance\<close> wraps around to \<open>-1\<close>.
\<close>

definition store_far :: TaxiStore where
  "store_far =
     snd (Add (snd (Add (snd (Add NewTaxiStore \<lparr>X = 1, Y = 0\<rparr>))
                        \<lparr>X = - 9223372036854775808, Y = 9223372036854775807\<rparr>))
              \<lparr>X = 5, Y = 5\<rparr>)"

definition ride_at :: "Location \<Rightarrow> Ride" where
  "ride_at pickup =
     \<lparr>RideID = 1, ClientID = 7, TaxiID = 0, StartLocation = pickup,
      EndLocation = \<lparr>X = 5, Y = 0\<rparr>, Status = CREATED\<rparr>"

text \<open>
  The end-to-end scenario: one taxi registered at \<open>(0,0)\<close>, a ride from \<open>(0,0)\<close> to
  \<open>(5,0)\<close> processed.
\<close>

definition ex_request :: RideRequest where
  "ex_request =
     \<lparr>ReqClientID = 7, ReqStartLocation = \<lparr>X = 0, Y = 0\<rparr>, ReqEndLocation = \<lparr>X = 5, Y = 0\<rparr>\<rparr>"

definition ex_registered :: System where
  "ex_registered = snd (RegisterTaxi NewServer \<lparr>X = 0, Y = 0\<rparr>)"

definition ex_assigned :: System where
  "ex_assigned = processRequest ex_registered [1] ex_request"

text \<open>A server whose channel buffer holds 150 requests; a server after \<open>Shutdown\<close>.\<close>

definition ex_full :: System where
  "ex_full = NewServer\<lparr>rideRequests := \<lparr>buf = replicate 150 ex_request, sendq = [], closed = False\<rparr>\<rparr>"


section \<open>The distance function\<close>

lemma sint64_range: "- (2 ^ 63) \<le> sint (w::int64) \<and> sint w < 2 ^ 63"
  using sint_ge [of w] sint_lt [of w] by simp

lemma signed_take_bit_63_id:
  "- (2 ^ 63) \<le> k \<Longrightarrow> k < 2 ^ 63 \<Longrightarrow> signed_take_bit (63::nat) (k::int) = k"
  by (simp add: signed_take_bit_int_eq_self)

lemma sint_sub64:
  assumes "\<bar>sint (a::int64) - sint b\<bar> < 2 ^ 63"
  shows "sint (a - b) = sint a - sint b"
proof -
  have "sint (a - b) = signed_take_bit 63 (sint a - sint b)"
    by (simp add: sint_word_ariths)
  also have "\<dots> = sint a - sint b"
    using assms by (intro signed_take_bit_63_id) linarith+
  finally show ?thesis .
qed

lemma sint_neg64:
  assumes "sint (d::int64) \<noteq> - (2 ^ 63)"
  shows "sint (- d) = - sint d"
proof -
  have "sint (- d) = signed_take_bit 63 (- sint d)"
    by (simp add: sint_word_ariths)
  also have "\<dots> = - sint d"
    using assms sint64_range [of d] by (intro signed_take_bit_63_id) linarith+
  finally show ?thesis .
qed

lemma sint_abs64:
  assumes "- (2 ^ 63) < sint (d::int64)"
  shows "sint (if d <s 0 then - d else d) = \<bar>sint d\<bar>"
  using assms sint_neg64 [of d] by (simp add: word_sless_alt)

lemma sint_add64:
  assumes "0 \<le> sint (a::int64)" "0 \<le> sint b" "sint a + sint b < 2 ^ 63"
  shows "sint (a + b) = sint a + sint b"
proof -
  have "sint (a + b) = signed_take_bit 63 (sint a + sint b)"
    by (simp add: sint_word_ariths)
  also have "\<dots> = sint a + sint b"
    using assms by (intro signed_take_bit_63_id) linarith+
  finally show ?thesis .
qed

lemma CalculateDistance_exact:
  assumes "manhattan a b < 2 ^ 63"
  shows "sint (CalculateDistance a b) = manhattan a b"
proof -
  let ?dx = "X a - X b" and ?dy = "Y a - Y b"
  from assms have bx: "\<bar>sint (X a) - sint (X b)\<bar> < 2 ^ 63"
    and by': "\<bar>sint (Y a) - sint (Y b)\<bar> < 2 ^ 63"
    unfolding manhattan_def by linarith+
  have dx: "sint ?dx = sint (X a) - sint (X b)" by (rule sint_sub64 [OF bx])
  have dy: "sint ?dy = sint (Y a) - sint (Y b)" by (rule sint_sub64 [OF by'])
  have ax: "sint (if ?dx <s 0 then - ?dx else ?dx) = \<bar>sint (X a) - sint (X b)\<bar>"
    using sint_abs64 [of ?dx] bx dx by simp
  have ay: "sint (if ?dy <s 0 then - ?dy else ?dy) = \<bar>sint (Y a) - sint (Y b)\<bar>"
    using sint_abs64 [of ?dy] by' dy by simp
  have "sint ((if ?dx <s 0 then - ?dx else ?dx) + (if ?dy <s 0 then - ?dy else ?dy))
        = \<bar>sint (X a) - sint (X b)\<bar> + \<bar>sint (Y a) - sint (Y b)\<bar>"
    using sint_add64 [of "if ?dx <s 0 then - ?dx else ?dx" "if ?dy <s 0 then - ?dy else ?dy"]
      assms ax ay unfolding manhattan_def by simp
  then show ?thesis by (simp add: CalculateDistance_def manhattan_def Let_def)
qed

lemma manhattan_nonneg: "0 \<le> manhattan a b"
  by (simp add: manhattan_def)

lemma neg_min64: "sint (d::int64) = - (2 ^ 63) \<Longrightarrow> - d = d"
proof -
  assume a: "sint d = - (2 ^ 63)"
  have "sint (- d) = signed_take_bit 63 (- sint d)" by (simp add: sint_word_ariths)
  also have "\<dots> = signed_take_bit 63 ((2::int) ^ 63)" using a by simp
  also have "\<dots> = - (2 ^ 63)" by (simp add: signed_take_bit_eq_take_bit_minus)
  finally have "sint (- d) = sint d" using a by simp
  then show ?thesis by (simp only: signed_word_eqI)
qed

lemma abs_neg64: "(if - (d::int64) <s 0 then - (- d) else - d) = (if d <s 0 then - d else d)"
proof (cases "sint d = - (2 ^ 63)")
  case True
  then show ?thesis by (simp add: neg_min64)
next
  case False
  note n = sint_neg64 [OF False]
  show ?thesis
  proof (cases "sint d = 0")
    case True
    then have "sint d = sint (0::int64)" by simp
    then have "d = 0" by (rule signed_word_eqI)
    then show ?thesis by simp
  next
    case False
    then show ?thesis using n by (auto simp: word_sless_alt)
  qed
qed

lemma CalculateDistance_sym: "CalculateDistance a b = CalculateDistance b a"
proof -
  have x: "X b - X a = - (X a - X b)" and y: "Y b - Y a = - (Y a - Y b)" by simp_all
  show ?thesis
    unfolding CalculateDistance_def Let_def x y abs_neg64 ..
qed

text \<open>
  C10 (as amended).  Whenever the Manhattan distance \<open>|a.x - b.x| + |a.y - b.y|\<close> of
  two coordinates is representable as a 64-bit \<open>int\<close> (it is below \<open>2^63\<close>),
  \<open>CalculateDistance a b\<close> equals it and is non-negative.  For all coordinates,
  representable or not, \<open>CalculateDistance a b = CalculateDistance b a\<close> and
  \<open>CalculateDistance a a = 0\<close>; and \<open>CalculateDistance (0,0) (3,4) = 7\<close>.
\<close>

theorem CalculateDistance_is_manhattan:
  "(manhattan a b < 2 ^ 63 \<longrightarrow>
      sint (CalculateDistance a b) = manhattan a b \<and> 0 \<le> sint (CalculateDistance a b)) \<and>
   CalculateDistance a b = CalculateDistance b a \<and>
   CalculateDistance a a = 0 \<and>
   CalculateDistance \<lparr>X = 0, Y = 0\<rparr> \<lparr>X = 3, Y = 4\<rparr> = 7"
proof (intro conjI impI)
  assume h: "manhattan a b < 2 ^ 63"
  show "sint (CalculateDistance a b) = manhattan a b"
    by (rule CalculateDistance_exact [OF h])
  then show "0 \<le> sint (CalculateDistance a b)"
    by (simp add: manhattan_nonneg)
next
  show "CalculateDistance a b = CalculateDistance b a"
    by (rule CalculateDistance_sym)
next
  show "CalculateDistance a a = 0"
    by (simp add: CalculateDistance_def)
next
  show "CalculateDistance \<lparr>X = 0, Y = 0\<rparr> \<lparr>X = 3, Y = 4\<rparr> = 7"
    by (simp add: CalculateDistance_def word_sless_alt)
qed

theorem CalculateDistance_is_manhattan_witness:
  "manhattan \<lparr>X = 0, Y = 0\<rparr> \<lparr>X = 3, Y = 4\<rparr> < 2 ^ 63 \<and>
   sint (CalculateDistance \<lparr>X = 0, Y = 0\<rparr> \<lparr>X = 3, Y = 4\<rparr>) = 7 \<and>
   manhattan \<lparr>X = 0, Y = 0\<rparr> \<lparr>X = 3, Y = 4\<rparr> = 7"
proof -
  have h: "manhattan \<lparr>X = 0, Y = 0\<rparr> \<lparr>X = 3, Y = 4\<rparr> < 2 ^ 63"
    by (simp add: manhattan_def)
  from CalculateDistance_is_manhattan [of "\<lparr>X = 0, Y = 0\<rparr>" "\<lparr>X = 3, Y = 4\<rparr>"] h
  have "sint (CalculateDistance \<lparr>X = 0, Y = 0\<rparr> \<lparr>X = 3, Y = 4\<rparr>)
          = manhattan \<lparr>X = 0, Y = 0\<rparr> \<lparr>X = 3, Y = 4\<rparr>"
    by blast
  with h show ?thesis by (simp add: manhattan_def)
qed

text \<open>
  C10 as stated fails: from \<open>(-2^63, 0)\<close> to \<open>(0, 0)\<close> the subtraction gives
  \<open>-2^63\<close>, its negation wraps to \<open>-2^63\<close> again, and the result is negative,
  while the Manhattan distance is \<open>2^63\<close>.
\<close>

theorem CalculateDistance_negative:
  "sint (CalculateDistance \<lparr>X = - 9223372036854775808, Y = 0\<rparr> \<lparr>X = 0, Y = 0\<rparr>) < 0 \<and>
   sint (CalculateDistance \<lparr>X = - 9223372036854775808, Y = 0\<rparr> \<lparr>X = 0, Y = 0\<rparr>)
     \<noteq> manhattan \<lparr>X = - 9223372036854775808, Y = 0\<rparr> \<lparr>X = 0, Y = 0\<rparr>"
  by (simp add: CalculateDistance_def manhattan_def word_sless_alt)

section \<open>The store\<close>

lemma store_wf_New: "store_wf NewTaxiStore"
  by (simp add: store_wf_def NewTaxiStore_def)

lemma store_wf_obj: "store_wf ts \<Longrightarrow> a < length (objs ts) \<Longrightarrow> taxis ts (ID (objs ts ! a)) = Some a"
  by (simp add: store_wf_def)

lemma store_wf_key:
  "store_wf ts \<Longrightarrow> taxis ts k = Some a \<Longrightarrow> a < length (objs ts) \<and> ID (objs ts ! a) = k \<and> k < nextID ts"
  by (simp add: store_wf_def)

lemma store_wf_fresh: "store_wf ts \<Longrightarrow> taxis ts (nextID ts) = None"
  using store_wf_key [of ts "nextID ts"] by (cases "taxis ts (nextID ts)") auto


lemma Add_fields:
  "taxis (snd (Add ts location)) = (taxis ts)(nextID ts \<mapsto> length (objs ts))"
  "nextID (snd (Add ts location)) = nextID ts + 1"
  "objs (snd (Add ts location)) = objs ts @ [\<lparr>ID = nextID ts, Location = location, IsAvailable = True\<rparr>]"
  by (simp_all add: Add_def Let_def)

lemma store_wf_Add:
  assumes wf: "store_wf ts"
  shows "store_wf (snd (Add ts location))"
  unfolding store_wf_def Add_fields
proof (intro conjI allI impI)
  fix a assume "a < length (objs ts @ [\<lparr>ID = nextID ts, Location = location, IsAvailable = True\<rparr>])"
  then consider "a < length (objs ts)" | "a = length (objs ts)" by fastforce
  then show "((taxis ts)(nextID ts \<mapsto> length (objs ts)))
       (ID ((objs ts @ [\<lparr>ID = nextID ts, Location = location, IsAvailable = True\<rparr>]) ! a)) = Some a"
  proof cases
    case 1
    from store_wf_obj [OF wf 1] store_wf_fresh [OF wf]
    have "ID (objs ts ! a) \<noteq> nextID ts" by auto
    with 1 store_wf_obj [OF wf 1] show ?thesis by (simp add: nth_append)
  next
    case 2
    then show ?thesis by simp
  qed
next
  fix k a
  assume h: "((taxis ts)(nextID ts \<mapsto> length (objs ts))) k = Some a"
  show "a < length (objs ts @ [\<lparr>ID = nextID ts, Location = location, IsAvailable = True\<rparr>])"
    using h store_wf_key [OF wf, of k a] by (auto split: if_splits)
  show "ID ((objs ts @ [\<lparr>ID = nextID ts, Location = location, IsAvailable = True\<rparr>]) ! a) = k"
    using h store_wf_key [OF wf, of k a] by (auto split: if_splits simp: nth_append)
  show "k < nextID ts + 1"
    using h store_wf_key [OF wf, of k a] by (auto split: if_splits)
qed




section \<open>Unknown IDs\<close>

text \<open>
  C9.  For an ID absent from the store, \<open>SetAvailability\<close> and \<open>UpdateLocation\<close>
  return false and the store they leave is the store they were given; for an ID
  that is present they return true; and whenever either returns false the store
  is unchanged.
\<close>

theorem unknown_id_not_found:
  "(taxis ts tid = None \<longrightarrow>
      SetAvailability ts tid b = (False, ts) \<and> UpdateLocation ts tid location = (False, ts)) \<and>
   (taxis ts tid \<noteq> None \<longrightarrow>
      fst (SetAvailability ts tid b) \<and> fst (UpdateLocation ts tid location)) \<and>
   (\<not> fst (SetAvailability ts tid b) \<longrightarrow> snd (SetAvailability ts tid b) = ts) \<and>
   (\<not> fst (UpdateLocation ts tid location) \<longrightarrow> snd (UpdateLocation ts tid location) = ts)"
  by (auto simp: SetAvailability_def UpdateLocation_def split: option.splits)

theorem unknown_id_not_found_witness:
  "taxis store_one 2 = None \<and>
   SetAvailability store_one 2 False = (False, store_one) \<and>
   UpdateLocation store_one 2 \<lparr>X = 3, Y = 4\<rparr> = (False, store_one) \<and>
   taxis store_one 1 \<noteq> None \<and>
   fst (SetAvailability store_one 1 False) \<and>
   fst (UpdateLocation store_one 1 \<lparr>X = 3, Y = 4\<rparr>)"
proof -
  have a: "taxis store_one 2 = None" and p: "taxis store_one 1 \<noteq> None"
    by (simp_all add: store_one_def Add_def NewTaxiStore_def Let_def)
  from unknown_id_not_found [of store_one 2 False "\<lparr>X = 3, Y = 4\<rparr>"] a
  have 1: "SetAvailability store_one 2 False = (False, store_one) \<and>
           UpdateLocation store_one 2 \<lparr>X = 3, Y = 4\<rparr> = (False, store_one)" by blast
  from unknown_id_not_found [of store_one 1 False "\<lparr>X = 3, Y = 4\<rparr>"] p
  have 2: "fst (SetAvailability store_one 1 False) \<and> fst (UpdateLocation store_one 1 \<lparr>X = 3, Y = 4\<rparr>)"
    by blast
  from a p 1 2 show ?thesis by blast
qed

section \<open>Snapshots of the available taxis\<close>

lemma GetAllAvailable_loop_eq:
  "GetAllAvailable_loop ts ks acc =
     acc @ filter (\<lambda>p. IsAvailable (objs ts ! p)) (List.map_filter (taxis ts) ks)"
  by (induction ks arbitrary: acc) (auto simp: List.map_filter_simps split: option.splits)

lemma GetAllAvailable_eq:
  "GetAllAvailable ts ord = filter (\<lambda>p. IsAvailable (objs ts ! p)) (List.map_filter (taxis ts) ord)"
  by (simp add: GetAllAvailable_def GetAllAvailable_loop_eq)

lemma set_map_filter: "set (List.map_filter f xs) = {y. \<exists>x \<in> set xs. f x = Some y}"
  by (induction xs) (auto simp: List.map_filter_simps split: option.splits)

lemma set_GetAllAvailable:
  "set (GetAllAvailable ts ord) = {p. \<exists>k \<in> set ord. taxis ts k = Some p \<and> IsAvailable (objs ts ! p)}"
  by (auto simp: GetAllAvailable_eq set_map_filter)

lemma distinct_map_filter:
  assumes "distinct xs" "\<And>x y z. f x = Some z \<Longrightarrow> f y = Some z \<Longrightarrow> x = y"
  shows "distinct (List.map_filter f xs)"
  using assms(1)
proof (induction xs)
  case Nil
  then show ?case by (simp add: List.map_filter_simps)
next
  case (Cons x xs)
  then show ?case
    using assms(2) by (auto simp: List.map_filter_simps set_map_filter split: option.splits)
qed

lemma distinct_GetAllAvailable:
  assumes "store_wf ts" "distinct ord"
  shows "distinct (GetAllAvailable ts ord)"
proof -
  have "distinct (List.map_filter (taxis ts) ord)"
  proof (rule distinct_map_filter [OF assms(2)])
    fix x y z assume "taxis ts x = Some z" "taxis ts y = Some z"
    with store_wf_key [OF assms(1)] show "x = y" by metis
  qed
  then show ?thesis by (simp add: GetAllAvailable_eq)
qed

lemma SetAvailability_fields:
  "taxis ts tid = Some p \<Longrightarrow>
     SetAvailability ts tid b = (True, ts\<lparr>objs := (objs ts)[p := (objs ts ! p)\<lparr>IsAvailable := b\<rparr>]\<rparr>)"
  "taxis ts tid = None \<Longrightarrow> SetAvailability ts tid b = (False, ts)"
  by (simp_all add: SetAvailability_def)

lemma UpdateLocation_fields:
  "taxis ts tid = Some p \<Longrightarrow>
     UpdateLocation ts tid l = (True, ts\<lparr>objs := (objs ts)[p := (objs ts ! p)\<lparr>Location := l\<rparr>]\<rparr>)"
  "taxis ts tid = None \<Longrightarrow> UpdateLocation ts tid l = (False, ts)"
  by (simp_all add: UpdateLocation_def)

text \<open>
  C5 (as amended).  \<open>GetAllAvailable\<close> returns a new slice holding, once each,
  exactly the pointers to the vehicles whose \<open>IsAvailable\<close> flag is true at call
  time.  Its elements are pointers to the store's own records, not copies: a later
  \<open>SetAvailability\<close> or \<open>UpdateLocation\<close> on such a vehicle is visible through the
  pointer that was returned.
\<close>

theorem GetAllAvailable_pointers:
  assumes "store_wf ts" and "valid_order ts ord"
  shows "set (GetAllAvailable ts ord) = {p. \<exists>k. taxis ts k = Some p \<and> IsAvailable (objs ts ! p)} \<and>
         distinct (GetAllAvailable ts ord) \<and>
         (\<forall>p \<in> set (GetAllAvailable ts ord). \<forall>b location.
            IsAvailable (objs (snd (SetAvailability ts (ID (objs ts ! p)) b)) ! p) = b \<and>
            Location (objs (snd (UpdateLocation ts (ID (objs ts ! p)) location)) ! p) = location)"
proof (intro conjI ballI allI)
  from assms(2) have ord: "distinct ord" "set ord = dom (taxis ts)"
    by (simp_all add: valid_order_def)
  show "set (GetAllAvailable ts ord) = {p. \<exists>k. taxis ts k = Some p \<and> IsAvailable (objs ts ! p)}"
    unfolding set_GetAllAvailable ord(2) by auto
  show "distinct (GetAllAvailable ts ord)"
    by (rule distinct_GetAllAvailable [OF assms(1) ord(1)])
  fix p b location
  assume "p \<in> set (GetAllAvailable ts ord)"
  then obtain k where k: "taxis ts k = Some p" by (auto simp: set_GetAllAvailable)
  from store_wf_key [OF assms(1) k] have p: "p < length (objs ts)" "ID (objs ts ! p) = k" by simp_all
  show "IsAvailable (objs (snd (SetAvailability ts (ID (objs ts ! p)) b)) ! p) = b"
    using p k by (simp add: SetAvailability_fields)
  show "Location (objs (snd (UpdateLocation ts (ID (objs ts ! p)) location)) ! p) = location"
    using p k by (simp add: UpdateLocation_fields)
qed

lemmas exdefs = store_one_def store_two_def Add_def NewTaxiStore_def Let_def

theorem GetAllAvailable_pointers_witness:
  "store_wf store_two \<and> valid_order store_two [2, 1] \<and>
   GetAllAvailable store_two [2, 1] = [1, 0] \<and>
   IsAvailable (objs (snd (SetAvailability store_two (ID (objs store_two ! 1)) False)) ! 1) = False"
proof -
  have wf: "store_wf store_two"
    unfolding store_two_def store_one_def by (intro store_wf_Add store_wf_New)
  have vo: "valid_order store_two [2, 1]"
    by (auto simp: valid_order_def exdefs)
  have g: "GetAllAvailable store_two [2, 1] = [1, 0]"
    by (simp add: GetAllAvailable_def exdefs)
  from GetAllAvailable_pointers [OF wf vo] g
  have "IsAvailable (objs (snd (SetAvailability store_two (ID (objs store_two ! 1)) False)) ! 1) = False"
    by simp
  with wf vo g show ?thesis by blast
qed

text \<open>
  C5 as stated fails: the record returned for taxi 1 is available and at \<open>(0,0)\<close>
  when \<open>GetAllAvailable\<close> returns; after \<open>SetAvailability 1 false\<close> the same
  pointer reads unavailable, and after \<open>UpdateLocation 1 (3,4)\<close> it reads \<open>(3,4)\<close>.
\<close>

theorem GetAllAvailable_aliases_store:
  "GetAllAvailable store_one [1] = [0] \<and>
   IsAvailable (objs store_one ! 0) \<and>
   Location (objs store_one ! 0) = \<lparr>X = 0, Y = 0\<rparr> \<and>
   \<not> IsAvailable (objs (snd (SetAvailability store_one 1 False)) ! 0) \<and>
   Location (objs (snd (UpdateLocation store_one 1 \<lparr>X = 3, Y = 4\<rparr>)) ! 0) = \<lparr>X = 3, Y = 4\<rparr>"
  by (simp add: GetAllAvailable_def SetAvailability_def UpdateLocation_def exdefs)

section \<open>Shutdown\<close>




section \<open>A full admission queue\<close>




text \<open>The full buffer is reached by 150 requests on a new server.\<close>

lemma run_requests:
  "n + length (buf (rideRequests s)) \<le> chan_cap \<Longrightarrow> \<not> shutdown s \<Longrightarrow> \<not> closed (rideRequests s) \<Longrightarrow>
   run s (replicate n (EvRequest c a b)) =
     Some (s\<lparr>rideRequests := (rideRequests s)\<lparr>buf := buf (rideRequests s) @
        replicate n \<lparr>ReqClientID = c, ReqStartLocation = a, ReqEndLocation = b\<rparr>\<rparr>\<rparr>)"
proof (induction n arbitrary: s)
  case 0
  then show ?case by simp
next
  case (Suc n)
  then show ?case
    by (simp add: RequestRide_def Let_def replicate_app_Cons_same)
qed

lemma ex_full_reachable:
  "run NewServer (replicate 150 (EvRequest 7 \<lparr>X = 0, Y = 0\<rparr> \<lparr>X = 5, Y = 0\<rparr>)) = Some ex_full"
proof -
  have "150 + length (buf (rideRequests NewServer)) \<le> chan_cap" "\<not> shutdown NewServer"
    "\<not> closed (rideRequests NewServer)"
    by (simp_all add: NewServer_def chan_cap_def)
  from run_requests [OF this, of 7 "\<lparr>X = 0, Y = 0\<rparr>" "\<lparr>X = 5, Y = 0\<rparr>"]
  show ?thesis by (simp add: ex_full_def NewServer_def ex_request_def)
qed

section \<open>The invariants hold in every run\<close>

lemma sys_inv_New: "sys_inv NewServer"
  by (simp add: sys_inv_def inv_avail_def inv_excl_def inv_dom_def inv_go_def holds_def
      NewServer_def store_wf_New) (simp add: NewTaxiStore_def)

lemma holds_cong:
  "rideObjs s' = rideObjs s \<Longrightarrow> holds s' r k = holds s r k"
  by (simp add: holds_def)

lemma sys_inv_cong:
  assumes "taxiStore s' = taxiStore s" "rideObjs s' = rideObjs s" "goroutines s' = goroutines s"
  shows "sys_inv s' = sys_inv s"
  using assms
  by (simp add: sys_inv_def inv_avail_def inv_excl_def inv_dom_def inv_go_def holds_cong [OF assms(2)])

text \<open>Registration\<close>

lemma sys_inv_register:
  assumes "sys_inv s"
  shows "sys_inv (snd (RegisterTaxi s location))"
proof -
  let ?ts = "taxiStore s"
  let ?s' = "s\<lparr>taxiStore := snd (Add ?ts location)\<rparr>"
  from assms have wf: "store_wf ?ts" and av: "inv_avail s" and ex: "inv_excl s"
    and dm: "inv_dom s" and go: "inv_go s"
    by (simp_all add: sys_inv_def)
  have h: "\<And>r k. holds ?s' r k = holds s r k" by (simp add: holds_def)
  have fresh: "taxis ?ts (nextID ?ts) = None" by (rule store_wf_fresh [OF wf])
  have old: "\<And>p. p < length (objs ?ts) \<Longrightarrow> objs (snd (Add ?ts location)) ! p = objs ?ts ! p"
    by (simp add: Add_fields nth_append)
  have 1: "store_wf (taxiStore ?s')" using store_wf_Add [OF wf] by simp
  have 2: "inv_avail ?s'"
    unfolding inv_avail_def h
  proof (intro allI impI)
    fix k p assume kp: "taxis (taxiStore ?s') k = Some p"
    show "(\<not> IsAvailable (objs (taxiStore ?s') ! p)) = (\<exists>r. holds s r k)"
    proof (cases "k = nextID ?ts")
      case True
      with dm fresh have "\<not> (\<exists>r. holds s r k)" unfolding inv_dom_def by blast
      moreover from True kp have "p = length (objs ?ts)" by (simp add: Add_fields)
      ultimately show ?thesis by (simp add: Add_fields)
    next
      case False
      with kp have m: "taxis ?ts k = Some p" by (simp add: Add_fields)
      from store_wf_key [OF wf m] have "p < length (objs ?ts)" by simp
      with old [of p] av m show ?thesis unfolding inv_avail_def by simp
    qed
  qed
  have 3: "inv_excl ?s'" using ex unfolding inv_excl_def h .
  have 4: "inv_dom ?s'" using dm unfolding inv_dom_def h by (auto simp: Add_fields)
  have 5: "inv_go ?s'"
    using go old unfolding inv_go_def h
    by (auto simp: CalculateRideDuration_def Add_fields nth_append)
  from 1 2 3 4 5 show ?thesis
    by (simp add: sys_inv_def RegisterTaxi_def split_beta)
qed

lemma closest_loop_mem:
  "closest_loop ts ride xs (c, dc) = (Some t, dt) \<Longrightarrow> t \<in> set xs \<or> c = Some t"
proof (induction xs arbitrary: c dc)
  case Nil
  then show ?case by simp
next
  case (Cons x xs)
  then show ?case
    by (fastforce simp: Let_def split: if_splits)
qed

lemma AssignClosestTaxi_None:
  assumes "fst (AssignClosestTaxi ts ord ride) = None"
  shows "AssignClosestTaxi ts ord ride = (None, ts, ride)"
  using assms
  by (auto simp: AssignClosestTaxi_def Let_def SetAvailability_def
      split: if_splits option.splits prod.splits bool.splits)

lemma AssignClosestTaxi_Some:
  assumes wf: "store_wf ts" and r: "fst (AssignClosestTaxi ts ord ride) = Some t"
  shows "t \<in> set (GetAllAvailable ts ord)"
    and "AssignClosestTaxi ts ord ride =
          (Some t, ts\<lparr>objs := (objs ts)[t := (objs ts ! t)\<lparr>IsAvailable := False\<rparr>]\<rparr>,
           ride\<lparr>TaxiID := ID (objs ts ! t), Status := ASSIGNED\<rparr>)"
proof -
  let ?xs = "GetAllAvailable ts ord"
  from r have c: "fst (closest_loop ts ride ?xs (None, - 1)) = Some t"
    by (auto simp: AssignClosestTaxi_def Let_def split: if_splits option.splits prod.splits bool.splits)
  then obtain dt where "closest_loop ts ride ?xs (None, - 1) = (Some t, dt)"
    by (cases "closest_loop ts ride ?xs (None, - 1)") auto
  from closest_loop_mem [OF this] show mem: "t \<in> set ?xs" by simp
  then obtain k where k: "taxis ts k = Some t" by (auto simp: set_GetAllAvailable)
  from store_wf_key [OF wf k] have "ID (objs ts ! t) = k" and lt: "t < length (objs ts)" by simp_all
  with k have sa: "SetAvailability ts (ID (objs ts ! t)) False =
      (True, ts\<lparr>objs := (objs ts)[t := (objs ts ! t)\<lparr>IsAvailable := False\<rparr>]\<rparr>)"
    by (simp add: SetAvailability_fields)
  from mem have ne: "length ?xs \<noteq> 0" by auto
  show "AssignClosestTaxi ts ord ride =
          (Some t, ts\<lparr>objs := (objs ts)[t := (objs ts ! t)\<lparr>IsAvailable := False\<rparr>]\<rparr>,
           ride\<lparr>TaxiID := ID (objs ts ! t), Status := ASSIGNED\<rparr>)"
    using ne c sa lt by (simp add: AssignClosestTaxi_def Let_def)
qed

text \<open>What \<open>processRequest\<close> does, by the result of the assignment.\<close>

lemma processRequest_None:
  assumes "fst (AssignClosestTaxi (taxiStore s) ord (new_ride s request)) = None"
  shows "processRequest s ord request =
           s\<lparr>nextRideID := nextRideID s + 1, rideObjs := rideObjs s @ [new_ride s request]\<rparr>"
  using AssignClosestTaxi_None [OF assms]
  by (simp add: processRequest_def Let_def new_ride_def)

lemma processRequest_Some:
  assumes wf: "store_wf (taxiStore s)"
    and r: "fst (AssignClosestTaxi (taxiStore s) ord (new_ride s request)) = Some t"
  shows "processRequest s ord request =
           s\<lparr>nextRideID := nextRideID s + 1,
              taxiStore := (taxiStore s)\<lparr>objs := (objs (taxiStore s))
                              [t := (objs (taxiStore s) ! t)\<lparr>IsAvailable := False\<rparr>]\<rparr>,
              rideObjs := rideObjs s @
                 [(new_ride s request)\<lparr>TaxiID := ID (objs (taxiStore s) ! t), Status := IN_PROGRESS\<rparr>],
              goroutines := goroutines s @
                 [(length (rideObjs s), t,
                   CalculateDistance (Location (objs (taxiStore s) ! t)) (ReqStartLocation request) +
                   CalculateDistance (ReqStartLocation request) (ReqEndLocation request))]\<rparr>"
proof -
  from AssignClosestTaxi_Some [OF wf r]
  have mem: "t \<in> set (GetAllAvailable (taxiStore s) ord)"
    and eq: "AssignClosestTaxi (taxiStore s) ord (new_ride s request) =
          (Some t, (taxiStore s)\<lparr>objs := (objs (taxiStore s))[t := (objs (taxiStore s) ! t)\<lparr>IsAvailable := False\<rparr>]\<rparr>,
           (new_ride s request)\<lparr>TaxiID := ID (objs (taxiStore s) ! t), Status := ASSIGNED\<rparr>)"
    by simp_all
  from mem obtain k where "taxis (taxiStore s) k = Some t" by (auto simp: set_GetAllAvailable)
  from store_wf_key [OF wf this] have lt: "t < length (objs (taxiStore s))" by simp
  from eq have eq': "AssignClosestTaxi (taxiStore s) ord 
           \<lparr>RideID = nextRideID s, ClientID = ReqClientID request, TaxiID = 0,
      StartLocation = ReqStartLocation request, EndLocation = ReqEndLocation request,
      Status = CREATED\<rparr> = (Some t, (taxiStore s)\<lparr>objs := (objs (taxiStore s))[t := (objs (taxiStore s) ! t)\<lparr>IsAvailable := False\<rparr>]\<rparr>,
           (new_ride s request)\<lparr>TaxiID := ID (objs (taxiStore s) ! t), Status := ASSIGNED\<rparr>)"
    by (simp add: new_ride_def)
  show ?thesis
    using lt
    by (simp add: processRequest_def Let_def eq' startRide_def CalculateRideDuration_def new_ride_def)
qed

lemma ID_list_update:
  "ID v = ID (xs ! t) \<Longrightarrow> ID (xs[t := v] ! a) = ID (xs ! a)"
  by (cases "t < length xs") (auto simp: nth_list_update list_update_beyond)

lemma nth_update_IsAvailable:
  "ID (xs[t := (xs ! t)\<lparr>IsAvailable := b\<rparr>] ! a) = ID (xs ! a)"
  "Location (xs[t := (xs ! t)\<lparr>IsAvailable := b\<rparr>] ! a) = Location (xs ! a)"
  by (cases "t < length xs"; cases "a = t"; simp add: list_update_beyond)+

lemma store_wf_update:
  assumes "store_wf ts" "ID v = ID (objs ts ! t)"
  shows "store_wf (ts\<lparr>objs := (objs ts)[t := v]\<rparr>)"
  using assms unfolding store_wf_def
  by (simp add: ID_list_update)

lemma store_wf_inj:
  "store_wf ts \<Longrightarrow> taxis ts k = Some p \<Longrightarrow> taxis ts k' = Some p \<Longrightarrow> k = k'"
  using store_wf_key by metis

text \<open>A ride that holds no vehicle is added.\<close>

lemma sys_inv_drop:
  assumes inv: "sys_inv s" and na: "\<not> active ride"
  shows "sys_inv (s\<lparr>nextRideID := n, rideObjs := rideObjs s @ [ride]\<rparr>)"
proof -
  let ?s' = "s\<lparr>nextRideID := n, rideObjs := rideObjs s @ [ride]\<rparr>"
  have h: "\<And>r k. holds ?s' r k = holds s r k"
    using na by (auto simp: holds_def nth_append)
  have go: "inv_go ?s'" if "inv_go s"
    using that unfolding inv_go_def h
    by (auto simp: holds_def nth_append)
  from inv go show ?thesis
    unfolding sys_inv_def inv_avail_def inv_excl_def inv_dom_def h by simp
qed

text \<open>A ride is assigned an available vehicle and started.\<close>

lemma sys_inv_assign:
  assumes inv: "sys_inv s"
    and k: "taxis (taxiStore s) k = Some t"
    and av: "IsAvailable (objs (taxiStore s) ! t)"
    and ride: "Status ride = IN_PROGRESS" "TaxiID ride = k"
    and d: "d = CalculateDistance (Location (objs (taxiStore s) ! t)) (StartLocation ride) +
                CalculateDistance (StartLocation ride) (EndLocation ride)"
  shows "sys_inv (s\<lparr>nextRideID := n,
              taxiStore := (taxiStore s)\<lparr>objs := (objs (taxiStore s))
                              [t := (objs (taxiStore s) ! t)\<lparr>IsAvailable := False\<rparr>]\<rparr>,
              rideObjs := rideObjs s @ [ride],
              goroutines := goroutines s @ [(length (rideObjs s), t, d)]\<rparr>)"
    (is "sys_inv ?s'")
proof -
  let ?ts = "taxiStore s"
  from inv have wf: "store_wf ?ts" and ia: "inv_avail s" and ie: "inv_excl s"
    and idm: "inv_dom s" and ig: "inv_go s"
    by (simp_all add: sys_inv_def)
  from store_wf_key [OF wf k] have lt: "t < length (objs ?ts)" and idt: "ID (objs ?ts ! t) = k"
    by simp_all
  have h: "\<And>r k'. holds ?s' r k' \<longleftrightarrow> holds s r k' \<or> (r = length (rideObjs s) \<and> k' = k)"
    using ride by (auto simp: holds_def nth_append active_def)
  from ia k av have free: "\<And>r. \<not> holds s r k" unfolding inv_avail_def by blast
  have bound: "\<And>r k'. holds s r k' \<Longrightarrow> r < length (rideObjs s)" by (simp add: holds_def)
  have 1: "store_wf (taxiStore ?s')"
    using store_wf_update [OF wf, of "(objs ?ts ! t)\<lparr>IsAvailable := False\<rparr>" t] by simp
  have 2: "inv_avail ?s'"
    unfolding inv_avail_def h
  proof (intro allI impI)
    fix k' p assume "taxis (taxiStore ?s') k' = Some p"
    then have m: "taxis ?ts k' = Some p" by simp
    show "(\<not> IsAvailable (objs (taxiStore ?s') ! p)) =
          (\<exists>r. holds s r k' \<or> r = length (rideObjs s) \<and> k' = k)"
    proof (cases "k' = k")
      case True
      with m k have "p = t" by simp
      with True lt show ?thesis by auto
    next
      case False
      with store_wf_inj [OF wf m] k have "p \<noteq> t" by blast
      with False ia m show ?thesis unfolding inv_avail_def by simp
    qed
  qed
  have 3: "inv_excl ?s'"
    using ie free bound unfolding inv_excl_def h by blast
  have 4: "inv_dom ?s'"
    using idm k unfolding inv_dom_def h by auto
  have 5: "inv_go ?s'"
    unfolding inv_go_def
  proof (intro conjI ballI)
    from ig have "distinct (map fst (goroutines s))"
      and "\<forall>(r, t, d) \<in> set (goroutines s). r < length (rideObjs s)"
      unfolding inv_go_def holds_def by auto
    then show "distinct (map fst (goroutines ?s'))" by auto
  next
    fix g assume g: "g \<in> set (goroutines ?s')"
    obtain r' t' d' where g3: "g = (r', t', d')" by (cases g) auto
    from g consider "g \<in> set (goroutines s)" | "g = (length (rideObjs s), t, d)" by auto
    then have "t' < length (objs (taxiStore ?s')) \<and>
          holds ?s' r' (ID (objs (taxiStore ?s') ! t')) \<and>
          Status (rideObjs ?s' ! r') = IN_PROGRESS \<and>
          d' = CalculateRideDuration (taxiStore ?s') t' (rideObjs ?s' ! r')"
    proof cases
      case 1
      with ig g3 have o: "t' < length (objs ?ts)" "holds s r' (ID (objs ?ts ! t'))"
        "Status (rideObjs s ! r') = IN_PROGRESS"
        "d' = CalculateRideDuration ?ts t' (rideObjs s ! r')"
        unfolding inv_go_def by auto
      from o(2) have "r' < length (rideObjs s)" by (rule bound)
      with o show ?thesis
        unfolding h by (simp add: nth_append nth_update_IsAvailable CalculateRideDuration_def)
    next
      case 2
      with g3 have "r' = length (rideObjs s)" "t' = t" "d' = d" by simp_all
      with lt idt ride d show ?thesis
        unfolding h by (simp add: CalculateRideDuration_def)
    qed
    with g3 show "case g of (r, t, d) \<Rightarrow>
          t < length (objs (taxiStore ?s')) \<and>
          holds ?s' r (ID (objs (taxiStore ?s') ! t)) \<and>
          Status (rideObjs ?s' ! r) = IN_PROGRESS \<and>
          d = CalculateRideDuration (taxiStore ?s') t (rideObjs ?s' ! r)" by simp
  qed
  from 1 2 3 4 5 show ?thesis by (simp add: sys_inv_def)
qed

lemma remove_nth_distinct:
  assumes "distinct (map f gs)" "i < length gs"
  shows "distinct (map f (take i gs @ drop (Suc i) gs))"
    and "g \<in> set (take i gs @ drop (Suc i) gs) \<Longrightarrow> g \<in> set gs \<and> f g \<noteq> f (gs ! i)"
proof -
  from assms(2) have gs: "gs = take i gs @ gs ! i # drop (Suc i) gs"
    by (rule id_take_nth_drop)
  with assms(1) have d: "distinct (map f (take i gs @ gs ! i # drop (Suc i) gs))" by simp
  then show "distinct (map f (take i gs @ drop (Suc i) gs))" by auto
  assume g: "g \<in> set (take i gs @ drop (Suc i) gs)"
  then have "g \<in> set gs" by (auto dest: in_set_takeD in_set_dropD)
  moreover from d g have "f g \<noteq> f (gs ! i)" by (force simp: image_iff)
  ultimately show "g \<in> set gs \<and> f g \<noteq> f (gs ! i)" ..
qed

lemma run_goroutine_eq:
  assumes inv: "sys_inv s" and i: "i < length (goroutines s)" and g: "goroutines s ! i = (r, t, d)"
  shows "run_goroutine s i =
           s\<lparr>goroutines := take i (goroutines s) @ drop (Suc i) (goroutines s),
              rideObjs := (rideObjs s)[r := (rideObjs s ! r)\<lparr>Status := FINISHED\<rparr>],
              taxiStore := (taxiStore s)\<lparr>objs := (objs (taxiStore s))
                 [t := (objs (taxiStore s) ! t)\<lparr>Location := EndLocation (rideObjs s ! r),
                                                IsAvailable := True\<rparr>]\<rparr>\<rparr>"
proof -
  let ?ts = "taxiStore s"
  from inv have wf: "store_wf ?ts" and ig: "inv_go s" by (simp_all add: sys_inv_def)
  from i g have "(r, t, d) \<in> set (goroutines s)" by (metis nth_mem)
  with ig have lt: "t < length (objs ?ts)" and h: "holds s r (ID (objs ?ts ! t))"
    unfolding inv_go_def by auto
  from h have r: "r < length (rideObjs s)" by (simp add: holds_def)
  from store_wf_obj [OF wf lt] have m: "taxis ?ts (ID (objs ?ts ! t)) = Some t" .
  show ?thesis
    using r lt m g
    by (simp add: run_goroutine_def endRide_def Let_def UpdateLocation_fields SetAvailability_fields)
qed

lemma holds_fun: "holds s r k \<Longrightarrow> holds s r k' \<Longrightarrow> k = k'"
  by (simp add: holds_def)

lemma sys_inv_complete:
  assumes inv: "sys_inv s" and i: "i < length (goroutines s)" and g: "goroutines s ! i = (r, t, d)"
  shows "sys_inv (s\<lparr>goroutines := take i (goroutines s) @ drop (Suc i) (goroutines s),
              rideObjs := (rideObjs s)[r := (rideObjs s ! r)\<lparr>Status := FINISHED\<rparr>],
              taxiStore := (taxiStore s)\<lparr>objs := (objs (taxiStore s))
                 [t := (objs (taxiStore s) ! t)\<lparr>Location := l, IsAvailable := True\<rparr>]\<rparr>\<rparr>)"
    (is "sys_inv ?s'")
proof -
  let ?ts = "taxiStore s"
  let ?k = "ID (objs ?ts ! t)"
  from inv have wf: "store_wf ?ts" and ia: "inv_avail s" and ie: "inv_excl s"
    and idm: "inv_dom s" and ig: "inv_go s"
    by (simp_all add: sys_inv_def)
  from i g have gin: "(r, t, d) \<in> set (goroutines s)" by (metis nth_mem)
  with ig have lt: "t < length (objs ?ts)" and hr: "holds s r ?k"
    unfolding inv_go_def by auto
  from hr have r: "r < length (rideObjs s)" by (simp add: holds_def)
  from store_wf_obj [OF wf lt] have m: "taxis ?ts ?k = Some t" .
  have h: "\<And>r' k. holds ?s' r' k \<longleftrightarrow> holds s r' k \<and> r' \<noteq> r"
    using r by (auto simp: holds_def nth_list_update active_def)
  have 1: "store_wf (taxiStore ?s')"
    using store_wf_update [OF wf, of "(objs ?ts ! t)\<lparr>Location := l, IsAvailable := True\<rparr>" t]
    by simp
  have 2: "inv_avail ?s'"
    unfolding inv_avail_def h
  proof (intro allI impI)
    fix k' p assume "taxis (taxiStore ?s') k' = Some p"
    then have m': "taxis ?ts k' = Some p" by simp
    show "(\<not> IsAvailable (objs (taxiStore ?s') ! p)) = (\<exists>r'. holds s r' k' \<and> r' \<noteq> r)"
    proof (cases "k' = ?k")
      case True
      with m m' have "p = t" by simp
      moreover from ie hr True have "\<not> (\<exists>r'. holds s r' k' \<and> r' \<noteq> r)"
        unfolding inv_excl_def by blast
      ultimately show ?thesis using lt by simp
    next
      case False
      with store_wf_inj [OF wf m'] m have "p \<noteq> t" by blast
      moreover from False hr holds_fun have "\<not> holds s r k'" by blast
      then have "(\<exists>r'. holds s r' k' \<and> r' \<noteq> r) = (\<exists>r'. holds s r' k')" by blast
      ultimately show ?thesis using ia m' unfolding inv_avail_def by simp
    qed
  qed
  have 3: "inv_excl ?s'" using ie unfolding inv_excl_def h by blast
  have 4: "inv_dom ?s'" using idm unfolding inv_dom_def h by auto
  from ig have dist: "distinct (map fst (goroutines s))" unfolding inv_go_def by simp
  have 5: "inv_go ?s'"
    unfolding inv_go_def
  proof (intro conjI ballI)
    show "distinct (map fst (goroutines ?s'))"
      using remove_nth_distinct(1) [OF dist i] by simp
  next
    fix g' assume "g' \<in> set (goroutines ?s')"
    then have "g' \<in> set (take i (goroutines s) @ drop (Suc i) (goroutines s))" by simp
    from remove_nth_distinct(2) [OF dist i this] g
    have g'in: "g' \<in> set (goroutines s)" and ne: "fst g' \<noteq> r" by simp_all
    obtain r' t' d' where g3: "g' = (r', t', d')" by (cases g') auto
    with ne have rr: "r' \<noteq> r" by simp
    from ig g'in g3 have o: "t' < length (objs ?ts)" "holds s r' (ID (objs ?ts ! t'))"
        "Status (rideObjs s ! r') = IN_PROGRESS"
        "d' = CalculateRideDuration ?ts t' (rideObjs s ! r')"
      unfolding inv_go_def by auto
    have tt: "t' \<noteq> t"
    proof
      assume "t' = t"
      with o(2) hr ie have "r' = r" unfolding inv_excl_def by blast
      with rr show False ..
    qed
    from o rr tt have "t' < length (objs (taxiStore ?s')) \<and>
          holds ?s' r' (ID (objs (taxiStore ?s') ! t')) \<and>
          Status (rideObjs ?s' ! r') = IN_PROGRESS \<and>
          d' = CalculateRideDuration (taxiStore ?s') t' (rideObjs ?s' ! r')"
      unfolding h by (simp add: CalculateRideDuration_def)
    with g3 show "case g' of (r, t, d) \<Rightarrow>
          t < length (objs (taxiStore ?s')) \<and>
          holds ?s' r (ID (objs (taxiStore ?s') ! t)) \<and>
          Status (rideObjs ?s' ! r) = IN_PROGRESS \<and>
          d = CalculateRideDuration (taxiStore ?s') t (rideObjs ?s' ! r)" by simp
  qed
  from 1 2 3 4 5 show ?thesis by (simp add: sys_inv_def)
qed

lemma sys_inv_step:
  assumes inv: "sys_inv s" and st: "step s e = Some s'"
  shows "sys_inv s'"
proof (cases e)
  case (EvRegister location)
  with st sys_inv_register [OF inv] show ?thesis by auto
next
  case (EvRequest c a b)
  with st have "taxiStore s' = taxiStore s \<and> rideObjs s' = rideObjs s \<and> goroutines s' = goroutines s"
    by (auto simp: RequestRide_def Let_def split: if_splits)
  with inv sys_inv_cong show ?thesis by blast
next
  case (EvProcess ord)
  with st obtain request c where rc: "recv (rideRequests s) = Some (request, c)"
    and s': "s' = processRequest (s\<lparr>rideRequests := c\<rparr>) ord request"
    by (auto split: if_splits option.splits)
  let ?s1 = "s\<lparr>rideRequests := c\<rparr>"
  have inv1: "sys_inv ?s1" using inv sys_inv_cong [of ?s1 s] by simp
  then have wf: "store_wf (taxiStore ?s1)" by (simp add: sys_inv_def)
  show ?thesis
  proof (cases "fst (AssignClosestTaxi (taxiStore ?s1) ord (new_ride ?s1 request))")
    case None
    have "\<not> active (new_ride ?s1 request)" by (simp add: active_def new_ride_def)
    from sys_inv_drop [OF inv1 this] show ?thesis
      unfolding s' processRequest_None [OF None] by simp
  next
    case (Some t)
    from AssignClosestTaxi_Some(1) [OF wf Some]
    obtain k where k: "taxis (taxiStore ?s1) k = Some t" and av: "IsAvailable (objs (taxiStore ?s1) ! t)"
      by (auto simp: set_GetAllAvailable)
    from store_wf_key [OF wf k] have idt: "ID (objs (taxiStore s) ! t) = k" by simp
    show ?thesis
      unfolding s' processRequest_Some [OF wf Some]
      by (rule sys_inv_assign [OF inv1 k av]) (simp_all add: new_ride_def idt)
  qed
next
  case (EvComplete i)
  with st have i: "i < length (goroutines s)" and s': "s' = run_goroutine s i"
    by (auto split: if_splits)
  obtain r t d where g: "goroutines s ! i = (r, t, d)" by (cases "goroutines s ! i") auto
  show ?thesis
    unfolding s' run_goroutine_eq [OF inv i g] by (rule sys_inv_complete [OF inv i g])
next
  case EvShutdown
  with st have "taxiStore s' = taxiStore s \<and> rideObjs s' = rideObjs s \<and> goroutines s' = goroutines s"
    by (auto simp: Shutdown_def Let_def split: if_splits)
  with inv sys_inv_cong show ?thesis by blast
qed

lemma sys_inv_run: "sys_inv s \<Longrightarrow> run s evs = Some s' \<Longrightarrow> sys_inv s'"
proof (induction evs arbitrary: s)
  case Nil
  then show ?case by simp
next
  case (Cons e evs)
  then show ?case by (auto split: option.splits dest: sys_inv_step)
qed

lemma reachable_inv: "run NewServer evs = Some s \<Longrightarrow> sys_inv s"
  using sys_inv_run [OF sys_inv_New] .

lemmas sysdefs = NewServer_def NewTaxiStore_def RegisterTaxi_def Add_def RequestRide_def
  chan_cap_def valid_order_def recv_def processRequest_def AssignClosestTaxi_def
  GetAllAvailable_def SetAvailability_def UpdateLocation_def CalculateRideDuration_def
  CalculateDistance_def startRide_def endRide_def run_goroutine_def Let_def word_sless_alt

lemma ex_assigned_eq:
  "ex_assigned =
     \<lparr>taxiStore = \<lparr>taxis = [1 \<mapsto> 0], nextID = 2,
                   objs = [\<lparr>ID = 1, Location = \<lparr>X = 0, Y = 0\<rparr>, IsAvailable = False\<rparr>]\<rparr>,
      rideRequests = \<lparr>buf = [], sendq = [], closed = False\<rparr>,
      shutdown = False, nextRideID = 2,
      rideObjs = [\<lparr>RideID = 1, ClientID = 7, TaxiID = 1, StartLocation = \<lparr>X = 0, Y = 0\<rparr>,
                   EndLocation = \<lparr>X = 5, Y = 0\<rparr>, Status = IN_PROGRESS\<rparr>],
      goroutines = [(0, 0, 5)]\<rparr>"
  by (simp add: ex_assigned_def ex_registered_def ex_request_def sysdefs)

lemma ex_assigned_run:
  "run NewServer [EvRegister \<lparr>X = 0, Y = 0\<rparr>, EvRequest 7 \<lparr>X = 0, Y = 0\<rparr> \<lparr>X = 5, Y = 0\<rparr>, EvProcess [1]]
     = Some ex_assigned"
  unfolding ex_assigned_eq by (simp add: sysdefs)






section \<open>No taxi available\<close>

lemma GetAllAvailable_none:
  assumes "\<forall>k p. taxis ts k = Some p \<longrightarrow> \<not> IsAvailable (objs ts ! p)"
  shows "GetAllAvailable ts ord = []"
proof -
  from assms have "set (GetAllAvailable ts ord) = {}" by (auto simp: set_GetAllAvailable)
  then show ?thesis by simp
qed

text \<open>A ride that no goroutine refers to is never changed by a later step.\<close>

lemma goroutine_ride_bound:
  "inv_go s \<Longrightarrow> g \<in> set (goroutines s) \<Longrightarrow> fst g < length (rideObjs s)"
  unfolding inv_go_def holds_def by (cases g) auto

lemma step_unreferenced:
  assumes inv: "sys_inv s" and st: "step s e = Some s'"
    and r: "r < length (rideObjs s)" and nr: "r \<notin> fst ` set (goroutines s)"
  shows "rideObjs s' ! r = rideObjs s ! r \<and> r < length (rideObjs s') \<and>
         r \<notin> fst ` set (goroutines s')"
proof (cases e)
  case (EvRegister location)
  with st r nr show ?thesis by (auto simp: RegisterTaxi_def split_beta)
next
  case (EvRequest c a b)
  with st r nr show ?thesis by (auto simp: RequestRide_def Let_def split: if_splits)
next
  case (EvProcess ord)
  with st obtain request c where s': "s' = processRequest (s\<lparr>rideRequests := c\<rparr>) ord request"
    by (auto split: if_splits option.splits)
  let ?s1 = "s\<lparr>rideRequests := c\<rparr>"
  from inv have wf: "store_wf (taxiStore ?s1)" by (simp add: sys_inv_def)
  show ?thesis
  proof (cases "fst (AssignClosestTaxi (taxiStore ?s1) ord (new_ride ?s1 request))")
    case None
    show ?thesis unfolding s' processRequest_None [OF None] using r nr by (simp add: nth_append)
  next
    case (Some t)
    show ?thesis unfolding s' processRequest_Some [OF wf Some] using r nr by (simp add: nth_append)
  qed
next
  case (EvComplete i)
  with st have i: "i < length (goroutines s)" and s': "s' = run_goroutine s i"
    by (auto split: if_splits)
  obtain r0 t d where g: "goroutines s ! i = (r0, t, d)" by (cases "goroutines s ! i") auto
  with i have "(r0, t, d) \<in> set (goroutines s)" by (metis nth_mem)
  with nr have ne: "r0 \<noteq> r" by force
  have sub: "set (take i (goroutines s) @ drop (Suc i) (goroutines s)) \<subseteq> set (goroutines s)"
    by (auto dest: in_set_takeD in_set_dropD)
  show ?thesis
    unfolding s' run_goroutine_eq [OF inv i g] using r nr ne sub by auto
next
  case EvShutdown
  with st r nr show ?thesis by (auto simp: Shutdown_def Let_def split: if_splits)
qed

lemma run_unreferenced:
  "sys_inv s \<Longrightarrow> run s evs = Some s' \<Longrightarrow> r < length (rideObjs s) \<Longrightarrow>
   r \<notin> fst ` set (goroutines s) \<Longrightarrow> rideObjs s' ! r = rideObjs s ! r"
proof (induction evs arbitrary: s)
  case Nil
  then show ?case by simp
next
  case (Cons e evs)
  from Cons.prems(2) obtain s1 where s1: "step s e = Some s1" and rest: "run s1 evs = Some s'"
    by (auto split: option.splits)
  from step_unreferenced [OF Cons.prems(1) s1 Cons.prems(3,4)]
  have k: "rideObjs s1 ! r = rideObjs s ! r" "r < length (rideObjs s1)"
    "r \<notin> fst ` set (goroutines s1)" by simp_all
  from Cons.IH [OF sys_inv_step [OF Cons.prems(1) s1] rest k(2,3)] k(1)
  show ?case by simp
qed

text \<open>
  C6.  If no vehicle of the store is available, \<open>AssignClosestTaxi\<close> returns \<open>nil\<close>
  and leaves the store and the ride as they were (a \<open>CREATED\<close> ride stays
  \<open>CREATED\<close>, its \<open>TaxiID\<close> unchanged); \<open>processRequest\<close> then only advances the
  ride counter and leaves the new ride \<open>CREATED\<close> with \<open>TaxiID = 0\<close>: the channel
  is as it was (nothing requeued), no goroutine is spawned, the store is unchanged.
  In a reachable state the ride is dropped for good: whatever steps follow, the
  ride object stays as \<open>processRequest\<close> left it.
\<close>

theorem no_taxi_ride_dropped:
  assumes "\<forall>k p. taxis (taxiStore s) k = Some p \<longrightarrow> \<not> IsAvailable (objs (taxiStore s) ! p)"
  shows "AssignClosestTaxi (taxiStore s) ord ride = (None, taxiStore s, ride) \<and>
         processRequest s ord request =
           s\<lparr>nextRideID := nextRideID s + 1,
              rideObjs := rideObjs s @ [new_ride s request]\<rparr> \<and>
         Status (new_ride s request) = CREATED \<and> TaxiID (new_ride s request) = 0 \<and>
         rideRequests (processRequest s ord request) = rideRequests s \<and>
         goroutines (processRequest s ord request) = goroutines s \<and>
         taxiStore (processRequest s ord request) = taxiStore s \<and>
         (\<forall>evs0 evs s'. run NewServer evs0 = Some s \<and>
              run (processRequest s ord request) evs = Some s' \<longrightarrow>
              rideObjs s' ! length (rideObjs s) = new_ride s request)"
proof -
  have a: "AssignClosestTaxi (taxiStore s) ord ride = (None, taxiStore s, ride)" for ride
    by (simp add: AssignClosestTaxi_def GetAllAvailable_none [OF assms])
  then have p: "processRequest s ord request =
           s\<lparr>nextRideID := nextRideID s + 1, rideObjs := rideObjs s @ [new_ride s request]\<rparr>"
    by (simp add: processRequest_def Let_def new_ride_def)
  have never: "rideObjs s' ! length (rideObjs s) = new_ride s request"
    if reach: "run NewServer evs0 = Some s"
      and later: "run (processRequest s ord request) evs = Some s'" for evs0 evs s'
  proof -
    let ?s1 = "s\<lparr>nextRideID := nextRideID s + 1, rideObjs := rideObjs s @ [new_ride s request]\<rparr>"
    note inv = reachable_inv [OF reach]
    have "\<not> active (new_ride s request)" by (simp add: active_def new_ride_def)
    from sys_inv_drop [OF inv this] have inv1: "sys_inv ?s1" .
    from inv have "inv_go s" by (simp add: sys_inv_def)
    from goroutine_ride_bound [OF this]
    have "length (rideObjs s) \<notin> fst ` set (goroutines s)" by (force simp: image_iff)
    then have nr: "length (rideObjs s) \<notin> fst ` set (goroutines ?s1)" by simp
    have lt: "length (rideObjs s) < length (rideObjs ?s1)" by simp
    from run_unreferenced [OF inv1 later [unfolded p] lt nr] show ?thesis by simp
  qed
  then have n: "\<forall>evs0 evs s'. run NewServer evs0 = Some s \<and>
              run (processRequest s ord request) evs = Some s' \<longrightarrow>
              rideObjs s' ! length (rideObjs s) = new_ride s request"
    by blast
  from a p n show ?thesis by (simp add: new_ride_def)
qed

theorem no_taxi_ride_dropped_witness:
  "run NewServer [EvRegister \<lparr>X = 0, Y = 0\<rparr>, EvRequest 7 \<lparr>X = 0, Y = 0\<rparr> \<lparr>X = 5, Y = 0\<rparr>, EvProcess [1]]
     = Some ex_assigned \<and>
   dom (taxis (taxiStore ex_assigned)) = {1} \<and>
   taxis (taxiStore ex_assigned) 1 = Some 0 \<and>
   \<not> IsAvailable (objs (taxiStore ex_assigned) ! 0) \<and>
   AssignClosestTaxi (taxiStore ex_assigned) [1] (ride_at \<lparr>X = 0, Y = 0\<rparr>)
     = (None, taxiStore ex_assigned, ride_at \<lparr>X = 0, Y = 0\<rparr>) \<and>
   Status (rideObjs (processRequest ex_assigned [1] ex_request) ! 1) = CREATED \<and>
   TaxiID (rideObjs (processRequest ex_assigned [1] ex_request) ! 1) = 0 \<and>
   goroutines (processRequest ex_assigned [1] ex_request) = [(0, 0, 5)] \<and>
   buf (rideRequests (processRequest ex_assigned [1] ex_request)) = [] \<and>
   run (processRequest ex_assigned [1] ex_request) [EvComplete 0] =
     Some (run_goroutine (processRequest ex_assigned [1] ex_request) 0) \<and>
   Status (rideObjs (run_goroutine (processRequest ex_assigned [1] ex_request) 0) ! 1) = CREATED"
proof -
  have m: "taxis (taxiStore ex_assigned) 1 = Some 0" by (simp add: ex_assigned_eq)
  have h: "\<forall>k p. taxis (taxiStore ex_assigned) k = Some p \<longrightarrow>
             \<not> IsAvailable (objs (taxiStore ex_assigned) ! p)"
    by (auto simp: ex_assigned_eq split: if_splits)
  note t = no_taxi_ride_dropped [OF h, of "[1]" "ride_at \<lparr>X = 0, Y = 0\<rparr>" ex_request]
  from t have p: "processRequest ex_assigned [1] ex_request =
      ex_assigned\<lparr>nextRideID := nextRideID ex_assigned + 1,
         rideObjs := rideObjs ex_assigned @ [new_ride ex_assigned ex_request]\<rparr>" by blast
  have l: "run (processRequest ex_assigned [1] ex_request) [EvComplete 0] =
     Some (run_goroutine (processRequest ex_assigned [1] ex_request) 0)"
    unfolding p by (simp add: ex_assigned_eq)
  from t ex_assigned_run l
  have "rideObjs (run_goroutine (processRequest ex_assigned [1] ex_request) 0) ! length (rideObjs ex_assigned)
          = new_ride ex_assigned ex_request" by blast
  then have f: "Status (rideObjs (run_goroutine (processRequest ex_assigned [1] ex_request) 0) ! 1) = CREATED"
    by (simp add: ex_assigned_eq new_ride_def)
  from t m ex_assigned_run l f show ?thesis
    by (simp add: ex_assigned_eq new_ride_def ex_request_def)
qed

section \<open>Closest taxi\<close>

lemma closest_loop_first_min:
  fixes ts ride
  defines "dist \<equiv> \<lambda>p. CalculateDistance (Location (objs ts ! p)) (StartLocation ride)"
  assumes "\<forall>u \<in> set xs. 0 \<le> sint (dist u)" and "0 \<le> sint dc"
  shows "(closest_loop ts ride xs (Some c, dc) = (Some c, dc) \<and> (\<forall>u \<in> set xs. sint dc \<le> sint (dist u))) \<or>
         (\<exists>pre t post. xs = pre @ t # post \<and>
            closest_loop ts ride xs (Some c, dc) = (Some t, dist t) \<and>
            sint (dist t) < sint dc \<and>
            (\<forall>u \<in> set pre. sint (dist t) < sint (dist u)) \<and>
            (\<forall>u \<in> set post. sint (dist t) \<le> sint (dist u)))"
  using assms(2,3)
proof (induction xs arbitrary: c dc)
  case Nil
  then show ?case by simp
next
  case (Cons x xs)
  from Cons.prems have nn: "\<forall>u \<in> set xs. 0 \<le> sint (dist u)" and x0: "0 \<le> sint (dist x)"
    by simp_all
  from Cons.prems(2) have ne: "dc \<noteq> - 1" by auto
  show ?case
  proof (cases "dist x <s dc")
    case True
    then have lt: "sint (dist x) < sint dc" by (simp add: word_sless_alt)
    from True have step: "closest_loop ts ride (x # xs) (Some c, dc) = closest_loop ts ride xs (Some x, dist x)"
      by (simp add: dist_def)
    from Cons.IH [OF nn x0, of x] show ?thesis
    proof (elim disjE exE conjE)
      assume "closest_loop ts ride xs (Some x, dist x) = (Some x, dist x)"
        and "\<forall>u \<in> set xs. sint (dist x) \<le> sint (dist u)"
      with step lt have "x # xs = [] @ x # xs \<and>
            closest_loop ts ride (x # xs) (Some c, dc) = (Some x, dist x) \<and>
            sint (dist x) < sint dc \<and>
            (\<forall>u \<in> set []. sint (dist x) < sint (dist u)) \<and>
            (\<forall>u \<in> set xs. sint (dist x) \<le> sint (dist u))" by simp
      then show ?thesis by blast
    next
      fix pre t post
      assume "xs = pre @ t # post" "closest_loop ts ride xs (Some x, dist x) = (Some t, dist t)"
        "sint (dist t) < sint (dist x)" "\<forall>u \<in> set pre. sint (dist t) < sint (dist u)"
        "\<forall>u \<in> set post. sint (dist t) \<le> sint (dist u)"
      with step lt have "x # xs = (x # pre) @ t # post \<and>
            closest_loop ts ride (x # xs) (Some c, dc) = (Some t, dist t) \<and>
            sint (dist t) < sint dc \<and>
            (\<forall>u \<in> set (x # pre). sint (dist t) < sint (dist u)) \<and>
            (\<forall>u \<in> set post. sint (dist t) \<le> sint (dist u))" by simp
      then show ?thesis by blast
    qed
  next
    case False
    then have ge: "sint dc \<le> sint (dist x)" by (simp add: word_sless_alt)
    from False ne have step: "closest_loop ts ride (x # xs) (Some c, dc) = closest_loop ts ride xs (Some c, dc)"
      by (simp add: dist_def)
    from Cons.IH [OF nn Cons.prems(2), of c] show ?thesis
    proof (elim disjE exE conjE)
      assume "closest_loop ts ride xs (Some c, dc) = (Some c, dc)"
        and "\<forall>u \<in> set xs. sint dc \<le> sint (dist u)"
      with step ge show ?thesis by simp
    next
      fix pre t post
      assume "xs = pre @ t # post" "closest_loop ts ride xs (Some c, dc) = (Some t, dist t)"
        "sint (dist t) < sint dc" "\<forall>u \<in> set pre. sint (dist t) < sint (dist u)"
        "\<forall>u \<in> set post. sint (dist t) \<le> sint (dist u)"
      with step ge have "x # xs = (x # pre) @ t # post \<and>
            closest_loop ts ride (x # xs) (Some c, dc) = (Some t, dist t) \<and>
            sint (dist t) < sint dc \<and>
            (\<forall>u \<in> set (x # pre). sint (dist t) < sint (dist u)) \<and>
            (\<forall>u \<in> set post. sint (dist t) \<le> sint (dist u))" by simp
      then show ?thesis by blast
    qed
  qed
qed

lemma closest_loop_start:
  fixes ts ride
  defines "dist \<equiv> \<lambda>p. CalculateDistance (Location (objs ts ! p)) (StartLocation ride)"
  assumes "xs \<noteq> []" and "\<forall>u \<in> set xs. 0 \<le> sint (dist u)"
  shows "\<exists>pre t post. xs = pre @ t # post \<and>
            fst (closest_loop ts ride xs (None, - 1)) = Some t \<and>
            (\<forall>u \<in> set pre. sint (dist t) < sint (dist u)) \<and>
            (\<forall>u \<in> set post. sint (dist t) \<le> sint (dist u))"
proof -
  from assms(2) obtain x rest where xs: "xs = x # rest" by (cases xs) auto
  with assms(3) have nn: "\<forall>u \<in> set rest. 0 \<le> sint (dist u)" and x0: "0 \<le> sint (dist x)"
    by simp_all
  have step: "closest_loop ts ride xs (None, - 1) = closest_loop ts ride rest (Some x, dist x)"
    by (simp add: xs dist_def)
  have "(closest_loop ts ride rest (Some x, dist x) = (Some x, dist x) \<and>
           (\<forall>u \<in> set rest. sint (dist x) \<le> sint (dist u))) \<or>
         (\<exists>pre t post. rest = pre @ t # post \<and>
            closest_loop ts ride rest (Some x, dist x) = (Some t, dist t) \<and>
            sint (dist t) < sint (dist x) \<and>
            (\<forall>u \<in> set pre. sint (dist t) < sint (dist u)) \<and>
            (\<forall>u \<in> set post. sint (dist t) \<le> sint (dist u)))"
    using nn x0 unfolding dist_def by (rule closest_loop_first_min)
  then show ?thesis
  proof (elim disjE exE conjE)
    assume "closest_loop ts ride rest (Some x, dist x) = (Some x, dist x)"
      and "\<forall>u \<in> set rest. sint (dist x) \<le> sint (dist u)"
    with step xs have "xs = [] @ x # rest \<and>
            fst (closest_loop ts ride xs (None, - 1)) = Some x \<and>
            (\<forall>u \<in> set []. sint (dist x) < sint (dist u)) \<and>
            (\<forall>u \<in> set rest. sint (dist x) \<le> sint (dist u))" by simp
    then show ?thesis by blast
  next
    fix pre t post
    assume "rest = pre @ t # post" "closest_loop ts ride rest (Some x, dist x) = (Some t, dist t)"
      "sint (dist t) < sint (dist x)" "\<forall>u \<in> set pre. sint (dist t) < sint (dist u)"
      "\<forall>u \<in> set post. sint (dist t) \<le> sint (dist u)"
    with step xs have "xs = (x # pre) @ t # post \<and>
            fst (closest_loop ts ride xs (None, - 1)) = Some t \<and>
            (\<forall>u \<in> set (x # pre). sint (dist t) < sint (dist u)) \<and>
            (\<forall>u \<in> set post. sint (dist t) \<le> sint (dist u))" by simp
    then show ?thesis by blast
  qed
qed

text \<open>
  C2 (as amended).  For a well-formed store and a non-empty snapshot in which every
  vehicle's Manhattan distance to the pickup is representable as a 64-bit \<open>int\<close>
  (below \<open>2^63\<close>), \<open>AssignClosestTaxi\<close> returns the first vehicle of the snapshot
  whose Manhattan distance to the pickup is minimal: every vehicle before it in
  the snapshot is strictly farther, every vehicle after it is at least as far.
  The witness is the scenario of the claim: vehicles at \<open>(0,0)\<close> and \<open>(10,10)\<close>,
  pickup \<open>(1,1)\<close>, the vehicle at \<open>(0,0)\<close> is selected in either iteration order.
\<close>

theorem AssignClosestTaxi_closest:
  assumes "store_wf ts" and "GetAllAvailable ts ord \<noteq> []"
    and "\<forall>p \<in> set (GetAllAvailable ts ord).
           manhattan (Location (objs ts ! p)) (StartLocation ride) < 2 ^ 63"
  shows "\<exists>pre t post. GetAllAvailable ts ord = pre @ t # post \<and>
           fst (AssignClosestTaxi ts ord ride) = Some t \<and>
           (\<forall>u \<in> set pre. manhattan (Location (objs ts ! t)) (StartLocation ride)
                           < manhattan (Location (objs ts ! u)) (StartLocation ride)) \<and>
           (\<forall>u \<in> set post. manhattan (Location (objs ts ! t)) (StartLocation ride)
                           \<le> manhattan (Location (objs ts ! u)) (StartLocation ride))"
proof -
  let ?xs = "GetAllAvailable ts ord"
  let ?d = "\<lambda>p. CalculateDistance (Location (objs ts ! p)) (StartLocation ride)"
  let ?m = "\<lambda>p. manhattan (Location (objs ts ! p)) (StartLocation ride)"
  have ex: "sint (?d p) = ?m p" if "p \<in> set ?xs" for p
    using that assms(3) by (simp add: CalculateDistance_exact)
  then have nn: "\<forall>u \<in> set ?xs. 0 \<le> sint (?d u)"
    by (simp add: manhattan_nonneg)
  from closest_loop_start [OF assms(2) nn]
  obtain pre t post where xs: "?xs = pre @ t # post"
    and c: "fst (closest_loop ts ride ?xs (None, - 1)) = Some t"
    and pre: "\<forall>u \<in> set pre. sint (?d t) < sint (?d u)"
    and post: "\<forall>u \<in> set post. sint (?d t) \<le> sint (?d u)"
    by blast
  from xs have mem: "t \<in> set ?xs" and sub: "set pre \<subseteq> set ?xs" "set post \<subseteq> set ?xs" by auto
  from mem obtain k where k: "taxis ts k = Some t" by (auto simp: set_GetAllAvailable)
  from store_wf_key [OF assms(1) k] k have "taxis ts (ID (objs ts ! t)) = Some t" by simp
  then have "fst (AssignClosestTaxi ts ord ride) = Some t"
    using assms(2) c by (simp add: AssignClosestTaxi_def Let_def SetAvailability_fields)
  moreover from pre sub(1) mem have "\<forall>u \<in> set pre. ?m t < ?m u"
    by (metis ex subsetD)
  moreover from post sub(2) mem have "\<forall>u \<in> set post. ?m t \<le> ?m u"
    by (metis ex subsetD)
  ultimately show ?thesis using xs by blast
qed

lemma store_two_eq:
  "store_two = \<lparr>taxis = [1 \<mapsto> 0, 2 \<mapsto> 1], nextID = 3,
                objs = [\<lparr>ID = 1, Location = \<lparr>X = 0, Y = 0\<rparr>, IsAvailable = True\<rparr>,
                        \<lparr>ID = 2, Location = \<lparr>X = 10, Y = 10\<rparr>, IsAvailable = True\<rparr>]\<rparr>"
  by (simp add: store_two_def store_one_def Add_def NewTaxiStore_def Let_def)

theorem AssignClosestTaxi_closest_witness:
  "store_wf store_two \<and>
   GetAllAvailable store_two [2, 1] = [1, 0] \<and>
   Location (objs store_two ! 0) = \<lparr>X = 0, Y = 0\<rparr> \<and>
   Location (objs store_two ! 1) = \<lparr>X = 10, Y = 10\<rparr> \<and>
   StartLocation (ride_at \<lparr>X = 1, Y = 1\<rparr>) = \<lparr>X = 1, Y = 1\<rparr> \<and>
   manhattan (Location (objs store_two ! 0)) (StartLocation (ride_at \<lparr>X = 1, Y = 1\<rparr>)) = 2 \<and>
   manhattan (Location (objs store_two ! 1)) (StartLocation (ride_at \<lparr>X = 1, Y = 1\<rparr>)) = 18 \<and>
   (\<exists>pre post. GetAllAvailable store_two [2, 1] = pre @ 0 # post) \<and>
   fst (AssignClosestTaxi store_two [2, 1] (ride_at \<lparr>X = 1, Y = 1\<rparr>)) = Some 0 \<and>
   fst (AssignClosestTaxi store_two [1, 2] (ride_at \<lparr>X = 1, Y = 1\<rparr>)) = Some 0"
proof -
  have wf: "store_wf store_two"
    unfolding store_two_def store_one_def by (intro store_wf_Add store_wf_New)
  have g: "GetAllAvailable store_two [2, 1] = [1, 0]"
    by (simp add: GetAllAvailable_def store_two_eq)
  then have ne: "GetAllAvailable store_two [2, 1] \<noteq> []" by simp
  have h: "\<forall>p \<in> set (GetAllAvailable store_two [2, 1]).
       manhattan (Location (objs store_two ! p)) (StartLocation (ride_at \<lparr>X = 1, Y = 1\<rparr>)) < 2 ^ 63"
    unfolding g by (simp add: store_two_eq ride_at_def manhattan_def)
  have e1: "fst (AssignClosestTaxi store_two [2, 1] (ride_at \<lparr>X = 1, Y = 1\<rparr>)) = Some 0"
    and e2: "fst (AssignClosestTaxi store_two [1, 2] (ride_at \<lparr>X = 1, Y = 1\<rparr>)) = Some 0"
    by (simp_all add: store_two_eq ride_at_def sysdefs)
  from AssignClosestTaxi_closest [OF wf ne h] e1
  have "\<exists>pre post. GetAllAvailable store_two [2, 1] = pre @ 0 # post" by auto
  with wf g e1 e2 show ?thesis by (simp add: store_two_eq ride_at_def manhattan_def)
qed

lemma store_far_eq:
  "store_far = \<lparr>taxis = [1 \<mapsto> 0, 2 \<mapsto> 1, 3 \<mapsto> 2], nextID = 4,
                objs = [\<lparr>ID = 1, Location = \<lparr>X = 1, Y = 0\<rparr>, IsAvailable = True\<rparr>,
                        \<lparr>ID = 2, Location = \<lparr>X = - 9223372036854775808, Y = 9223372036854775807\<rparr>,
                          IsAvailable = True\<rparr>,
                        \<lparr>ID = 3, Location = \<lparr>X = 5, Y = 5\<rparr>, IsAvailable = True\<rparr>]\<rparr>"
  by (simp add: store_far_def Add_def NewTaxiStore_def Let_def numeral_2_eq_2)

text \<open>
  C2 as stated fails.  With vehicles at \<open>(1,0)\<close>, \<open>(-2^63, 2^63 - 1)\<close> and \<open>(5,5)\<close>,
  pickup \<open>(0,0)\<close> and the snapshot in this order, the distance computed for the
  second vehicle wraps around to \<open>-1\<close>, the value that marks "no taxi found yet";
  the loop then takes the third vehicle, at distance 10, although the first one
  is at distance 1.
\<close>

theorem AssignClosestTaxi_not_closest:
  "GetAllAvailable store_far [1, 2, 3] = [0, 1, 2] \<and>
   fst (AssignClosestTaxi store_far [1, 2, 3] (ride_at \<lparr>X = 0, Y = 0\<rparr>)) = Some 2 \<and>
   manhattan (Location (objs store_far ! 0)) (StartLocation (ride_at \<lparr>X = 0, Y = 0\<rparr>)) = 1 \<and>
   manhattan (Location (objs store_far ! 2)) (StartLocation (ride_at \<lparr>X = 0, Y = 0\<rparr>)) = 10 \<and>
   CalculateDistance (Location (objs store_far ! 0)) (StartLocation (ride_at \<lparr>X = 0, Y = 0\<rparr>)) = 1 \<and>
   CalculateDistance (Location (objs store_far ! 1)) (StartLocation (ride_at \<lparr>X = 0, Y = 0\<rparr>)) = - 1 \<and>
   CalculateDistance (Location (objs store_far ! 2)) (StartLocation (ride_at \<lparr>X = 0, Y = 0\<rparr>)) = 10"
  by (simp add: store_far_eq ride_at_def manhattan_def sysdefs)

end
